theory Spec2Isabelle
  imports Main "HOL-Library.Word" "HOL-Library.AList"
begin

section \<open>Data model\<close>

text \<open>
  Keys are Go \<open>uint64\<close>. Timestamps (\<open>time.Now().UnixNano()\<close>) and durations
  (\<open>time.Duration\<close>) are Go \<open>int64\<close>: 64-bit words, added with wrap-around and compared
  as two's complement numbers (\<open><s\<close>, read through \<open>sint\<close>).
\<close>

type_synonym key = "64 word"
type_synonym int64 = "64 word"

text \<open>
  A stored value is an \<open>interface{}\<close>: either \<open>nil\<close> (\<open>None\<close>) or some value. Go's
  \<open>error\<close> is an interface as well; \<open>None\<close> is the \<open>nil\<close> error and \<open>Some msg\<close> an
  error with its message.
\<close>

type_synonym 'v iface = "'v option"
type_synonym error = "string option"

text \<open>
  \<open>type item struct { deadline int64; value interface{} }\<close>. The field \<open>value\<close> is
  called \<open>val\<close> here.
\<close>

record 'v item =
  deadline :: int64
  val :: "'v iface"

text \<open>
  The run-time panics the modelled code can raise: closing a closed channel
  (\<open>close(c.done)\<close>), writing a slice out of range (\<open>k[i] = key\<close>), and
  \<open>time.NewTicker\<close> called with a non-positive interval.
\<close>

datatype panic = CloseOfClosedChannel | IndexOutOfRange | NonPositiveTickerInterval

text \<open>
  The channel \<open>done chan struct{}\<close>. Nothing is ever sent on it; the only thing that
  happens to it is \<open>close\<close>. Closing a closed channel panics.
\<close>

datatype chan = Open | Closed

fun close_chan :: "chan \<Rightarrow> panic + chan" where
  "close_chan Open = Inr Closed"
| "close_chan Closed = Inl CloseOfClosedChannel"

section \<open>The sharded store\<close>

text \<open>
  Modelled from the spec: the package \<open>concurrent-swiss-map\<close> (\<open>csmap.CsMap\<close>), which
  the cache imports and which is not among the source files. Following section 4.1 and
  the data model of the specification, the store is a fixed ordered collection of shards,
  each a mapping from key to item (an association list, whose order is the order in which
  \<open>Range\<close> visits the shard), and a key belongs to the shard selected by a stable hash of
  the key modulo the number of shards. The hash function is a field of the store, as it is
  a parameter of the library.
\<close>

record 'v CsMap =
  hasher :: "key \<Rightarrow> 64 word"
  shards :: "(key \<times> 'v item) list list"

text \<open>
  \<open>Create(WithShardCount(n), WithSize(sz))\<close>: \<open>n\<close> empty shards. The size is the
  capacity reserved in advance and does not show in the contents.
\<close>

definition csmap_Create :: "(key \<Rightarrow> 64 word) \<Rightarrow> nat \<Rightarrow> nat \<Rightarrow> 'v CsMap" where
  "csmap_Create h n sz = \<lparr>hasher = h, shards = replicate n []\<rparr>"

definition shard_index :: "'v CsMap \<Rightarrow> key \<Rightarrow> nat" where
  "shard_index m k = unat (hasher m k) mod length (shards m)"

text \<open>\<open>Load(key) -> (value, found)\<close>: \<open>None\<close> is \<open>found = false\<close>.\<close>

definition csmap_Load :: "'v CsMap \<Rightarrow> key \<Rightarrow> 'v item option" where
  "csmap_Load m k = map_of (shards m ! shard_index m k) k"

text \<open>\<open>Store(key, item)\<close>: inserts or overwrites in the owning shard.\<close>

definition csmap_Store :: "'v CsMap \<Rightarrow> key \<Rightarrow> 'v item \<Rightarrow> 'v CsMap" where
  "csmap_Store m k v =
     m\<lparr>shards := (shards m)[shard_index m k :=
          AList.update k v (shards m ! shard_index m k)]\<rparr>"

text \<open>\<open>Delete(key)\<close>: removes the key from its shard if present.\<close>

definition csmap_Delete :: "'v CsMap \<Rightarrow> key \<Rightarrow> 'v CsMap" where
  "csmap_Delete m k =
     m\<lparr>shards := (shards m)[shard_index m k :=
          AList.delete k (shards m ! shard_index m k)]\<rparr>"

text \<open>\<open>Count()\<close>: the total number of entries across all shards.\<close>

definition csmap_Count :: "'v CsMap \<Rightarrow> nat" where
  "csmap_Count m = sum_list (map length (shards m))"

text \<open>\<open>Clear()\<close>: removes all entries from all shards.\<close>

definition csmap_Clear :: "'v CsMap \<Rightarrow> 'v CsMap" where
  "csmap_Clear m = m\<lparr>shards := map (\<lambda>_. []) (shards m)\<rparr>"

text \<open>
  \<open>Range(visit)\<close>: visits every (key, item) pair, shard by shard. The visitor is a
  closure over mutable variables of its caller; here it takes their state \<open>s\<close> and returns
  the stop flag with the new state, or the panic it raised, which ends the traversal.
\<close>

fun range_entries ::
  "(key \<Rightarrow> 'v item \<Rightarrow> 's \<Rightarrow> panic + (bool \<times> 's)) \<Rightarrow> (key \<times> 'v item) list \<Rightarrow> 's \<Rightarrow> panic + 's"
where
  "range_entries f [] s = Inr s"
| "range_entries f ((k, v) # es) s =
     (case f k v s of
        Inl p \<Rightarrow> Inl p
      | Inr (stop, s') \<Rightarrow> if stop then Inr s' else range_entries f es s')"

definition csmap_Range ::
  "'v CsMap \<Rightarrow> (key \<Rightarrow> 'v item \<Rightarrow> 's \<Rightarrow> panic + (bool \<times> 's)) \<Rightarrow> 's \<Rightarrow> panic + 's"
where
  "csmap_Range m f s = range_entries f (concat (shards m)) s"

text \<open>
  The store is usable when it has at least one shard (the index is a remainder modulo the
  number of shards). It is consistent when, moreover, every entry lies in the shard its
  key hashes to and no shard holds a key twice.
\<close>

definition csmap_ok :: "'v CsMap \<Rightarrow> bool" where
  "csmap_ok m = (shards m \<noteq> [])"

definition csmap_inv :: "'v CsMap \<Rightarrow> bool" where
  "csmap_inv m =
     (shards m \<noteq> [] \<and>
      list_all (\<lambda>i. distinct (map fst (shards m ! i)) \<and>
                    list_all (\<lambda>e. shard_index m (fst e) = i) (shards m ! i))
               [0 ..< length (shards m)])"

section \<open>The cache\<close>

text \<open>
  \<open>type Cache struct { done chan struct{}; items *csmap.CsMap[uint64, item] }\<close>. The
  field \<open>done\<close> is called \<open>done_ch\<close> here.
\<close>

record 'v Cache =
  done_ch :: chan
  items :: "'v CsMap"

definition defaultCapacity :: nat where
  "defaultCapacity = 64"

definition Get :: "'v Cache \<Rightarrow> key \<Rightarrow> 'v iface \<times> bool" where
  "Get c k =
     (case csmap_Load (items c) k of
        None \<Rightarrow> (None, False)
      | Some cacheItem \<Rightarrow> (val cacheItem, True))"

text \<open>\<open>Set\<close> reads the clock once; \<open>now\<close> is the value of \<open>time.Now().UnixNano()\<close>.\<close>

definition Set :: "int64 \<Rightarrow> 'v Cache \<Rightarrow> key \<Rightarrow> 'v iface \<Rightarrow> int64 \<Rightarrow> 'v Cache" where
  "Set now c k v ttl =
     (let cacheItem = \<lparr>deadline = now + ttl, val = v\<rparr>
      in c\<lparr>items := csmap_Store (items c) k cacheItem\<rparr>)"

definition Delete :: "'v Cache \<Rightarrow> key \<Rightarrow> 'v Cache" where
  "Delete c k = c\<lparr>items := csmap_Delete (items c) k\<rparr>"

definition Clear :: "'v Cache \<Rightarrow> 'v Cache" where
  "Clear c = c\<lparr>items := csmap_Clear (items c)\<rparr>"

text \<open>
  \<open>Close\<close> closes the channel first; when that panics, the store is not cleared and
  nothing is returned.
\<close>

definition Close :: "'v Cache \<Rightarrow> panic + (error \<times> 'v Cache)" where
  "Close c =
     (case close_chan (done_ch c) of
        Inl p \<Rightarrow> Inl p
      | Inr d \<Rightarrow> Inr (None, c\<lparr>done_ch := d, items := csmap_Clear (items c)\<rparr>))"

text \<open>
  \<open>cleanup\<close>. The slice \<open>k\<close> is made with length \<open>Count()\<close>, so it starts as that many
  zeros; the visitor writes an expired key at index \<open>i\<close> (a write out of range panics) and
  advances \<open>i\<close>; the final loop ranges over the whole of \<open>k\<close>.
\<close>

definition cleanup_visit ::
  "int64 \<Rightarrow> key \<Rightarrow> 'v item \<Rightarrow> key list \<times> nat \<Rightarrow> panic + (bool \<times> (key list \<times> nat))"
where
  "cleanup_visit now ky value ki =
     (case ki of (k, i) \<Rightarrow>
        if deadline value <s now then
          (if i < length k then Inr (False, (k[i := ky], i + 1)) else Inl IndexOutOfRange)
        else Inr (False, (k, i)))"

definition cleanup_scan :: "int64 \<Rightarrow> 'v Cache \<Rightarrow> panic + (key list \<times> nat)" where
  "cleanup_scan now c =
     csmap_Range (items c) (cleanup_visit now)
       (replicate (csmap_Count (items c)) 0, 0)"

definition cleanup :: "int64 \<Rightarrow> 'v Cache \<Rightarrow> panic + 'v Cache" where
  "cleanup now c =
     (case cleanup_scan now c of
        Inl p \<Rightarrow> Inl p
      | Inr (k, i) \<Rightarrow> Inr (c\<lparr>items := fold (\<lambda>d m. csmap_Delete m d) k (items c)\<rparr>))"

text \<open>
  \<open>cleaner\<close>: \<open>time.NewTicker\<close> panics on a non-positive interval; then each turn of
  the loop is a \<open>select\<close> between a tick, which runs \<open>cleanup\<close> at the time \<open>now\<close> it
  reads, and a receive from \<open>done\<close>, which is ready only once the channel is closed and
  ends the goroutine. \<open>None\<close> says the chosen case is not ready.
\<close>

datatype sweeper = Running | Stopped

datatype event = Tick int64 | DoneReceived

definition cleaner_start :: "int64 \<Rightarrow> panic + sweeper" where
  "cleaner_start resolution =
     (if sint resolution \<le> 0 then Inl NonPositiveTickerInterval else Inr Running)"

fun cleaner_select :: "event \<Rightarrow> 'v Cache \<Rightarrow> (panic + (sweeper \<times> 'v Cache)) option" where
  "cleaner_select (Tick now) c =
     Some (case cleanup now c of Inl p \<Rightarrow> Inl p | Inr c' \<Rightarrow> Inr (Running, c'))"
| "cleaner_select DoneReceived c =
     (case done_ch c of Open \<Rightarrow> None | Closed \<Rightarrow> Some (Inr (Stopped, c)))"

text \<open>
  The loop of \<open>cleaner\<close>, run on its own along a schedule: the list of the cases the
  successive \<open>select\<close>s are offered. A case that is not ready is passed over; a panic or
  the \<open>done\<close> case ends the loop; at the end of the schedule the goroutine is still
  waiting in \<open>select\<close>.
\<close>

fun cleaner_loop :: "event list \<Rightarrow> 'v Cache \<Rightarrow> panic + (sweeper \<times> 'v Cache)" where
  "cleaner_loop [] c = Inr (Running, c)"
| "cleaner_loop (ev # evs) c =
     (case cleaner_select ev c of
        None \<Rightarrow> cleaner_loop evs c
      | Some (Inl p) \<Rightarrow> Inl p
      | Some (Inr (Stopped, c')) \<Rightarrow> Inr (Stopped, c')
      | Some (Inr (Running, c')) \<Rightarrow> cleaner_loop evs c')"

definition cleaner :: "'v Cache \<Rightarrow> int64 \<Rightarrow> event list \<Rightarrow> panic + (sweeper \<times> 'v Cache)" where
  "cleaner c resolution evs =
     (case cleaner_start resolution of
        Inl p \<Rightarrow> Inl p
      | Inr _ \<Rightarrow> cleaner_loop evs c)"

text \<open>
  \<open>New\<close> creates a store of 32 shards and an open channel, starts the goroutine with
  \<open>go cleaner(c, resolution)\<close> and returns the cache. The result is the cache together
  with the goroutine it started, given as the run of \<open>cleaner\<close> on that cache along a
  schedule. A panic of the goroutine ends the whole process, whatever the caller of
  \<open>New\<close> does with the cache it got. The hash function of the store, chosen by the
  library, is a parameter.
\<close>

definition New ::
  "(key \<Rightarrow> 64 word) \<Rightarrow> int64 \<Rightarrow>
     'v Cache \<times> (event list \<Rightarrow> panic + (sweeper \<times> 'v Cache))"
where
  "New h resolution =
     (let c = \<lparr>done_ch = Open, items = csmap_Create h 32 defaultCapacity\<rparr>
      in (c, cleaner c resolution))"

section \<open>Example states\<close>

text \<open>
  A cache made by \<open>New\<close> with resolution 100 and the identity as hash function, then
  filled at time 1000
  with key 1 (ttl 50) and key 33 (ttl 500); both keys live in shard 1.
\<close>

definition example_cache :: "string Cache" where
  "example_cache =
     Set 1000 (Set 1000 (fst (New id 100)) 1 (Some ''a'') 50) 33 (Some ''b'') 500"

text \<open>
  The same cache after its first \<open>Close\<close>, and a cache that holds only key 0, stored at
  time 0 with ttl 100.
\<close>

definition closed_cache :: "string Cache" where
  "closed_cache = \<lparr>done_ch = Closed, items = csmap_Clear (items example_cache)\<rparr>"

definition zero_cache :: "string Cache" where
  "zero_cache = Set 0 (fst (New id 1000)) 0 (Some ''a'') 100"

section \<open>Auxiliary notions\<close>

text \<open>
  The states a sequential client and the sweeper can bring a cache into: made by \<open>New\<close>
  with a positive resolution (with another one the process ends in a panic), then changed by the operations of the cache and by passes of \<open>cleanup\<close> that return.
\<close>

inductive reachable :: "'v Cache \<Rightarrow> bool" where
  reach_New: "0 < sint resolution \<Longrightarrow> reachable (fst (New h resolution))"
| reach_Set: "reachable c \<Longrightarrow> reachable (Set now c k v ttl)"
| reach_Delete: "reachable c \<Longrightarrow> reachable (Delete c k)"
| reach_Clear: "reachable c \<Longrightarrow> reachable (Clear c)"
| reach_Close: "reachable c \<Longrightarrow> Close c = Inr (e, c') \<Longrightarrow> reachable c'"
| reach_cleanup: "reachable c \<Longrightarrow> cleanup now c = Inr c' \<Longrightarrow> reachable c'"

text \<open>An entry is expired at \<open>now\<close> when \<open>cleanup\<close>'s test \<open>value.deadline < now\<close> holds.\<close>

definition is_expired :: "int64 \<Rightarrow> key \<times> 'v item \<Rightarrow> bool" where
  "is_expired now e = (deadline (snd e) <s now)"

definition expired_entries :: "int64 \<Rightarrow> 'v CsMap \<Rightarrow> (key \<times> 'v item) list" where
  "expired_entries now m = filter (is_expired now) (concat (shards m))"

section \<open>The store as a map\<close>

lemma shard_index_less: "csmap_ok m \<Longrightarrow> shard_index m k < length (shards m)"
  by (simp add: csmap_ok_def shard_index_def)

lemma shard_index_Store [simp]: "shard_index (csmap_Store m k v) k' = shard_index m k'"
  by (simp add: shard_index_def csmap_Store_def)

lemma shard_index_Delete [simp]: "shard_index (csmap_Delete m k) k' = shard_index m k'"
  by (simp add: shard_index_def csmap_Delete_def)

lemma csmap_ok_Store [simp]: "csmap_ok (csmap_Store m k v) = csmap_ok m"
  by (simp add: csmap_ok_def csmap_Store_def)

lemma csmap_ok_Delete [simp]: "csmap_ok (csmap_Delete m k) = csmap_ok m"
  by (simp add: csmap_ok_def csmap_Delete_def)

lemma csmap_ok_Clear [simp]: "csmap_ok (csmap_Clear m) = csmap_ok m"
  by (simp add: csmap_ok_def csmap_Clear_def)

lemma csmap_ok_Create: "0 < n \<Longrightarrow> csmap_ok (csmap_Create h n sz)"
  by (simp add: csmap_ok_def csmap_Create_def)

lemma Load_Store:
  "csmap_ok m \<Longrightarrow>
   csmap_Load (csmap_Store m k v) k' = (if k' = k then Some v else csmap_Load m k')"
  using shard_index_less [of m k]
  by (cases "shard_index m k' = shard_index m k")
     (auto simp: csmap_Load_def csmap_Store_def shard_index_def update_conv')

lemma Load_Delete:
  "csmap_ok m \<Longrightarrow>
   csmap_Load (csmap_Delete m k) k' = (if k' = k then None else csmap_Load m k')"
  using shard_index_less [of m k]
  by (cases "shard_index m k' = shard_index m k")
     (auto simp: csmap_Load_def csmap_Delete_def shard_index_def delete_conv')

lemma Load_Clear: "csmap_ok m \<Longrightarrow> csmap_Load (csmap_Clear m) k = None"
  using shard_index_less [of m k]
  by (simp add: csmap_Load_def csmap_Clear_def shard_index_def)

lemma Get_Store:
  "csmap_ok (items c) \<Longrightarrow>
   Get (c\<lparr>items := csmap_Store (items c) k it\<rparr>) k' =
     (if k' = k then (val it, True) else Get c k')"
  by (simp add: Get_def Load_Store)

lemma Get_Set: "csmap_ok (items c) \<Longrightarrow> Get (Set now c k v t) k = (v, True)"
  by (simp add: Set_def Get_Store)

lemma Get_absent: "csmap_Load (items c) k = None \<Longrightarrow> Get c k = (None, False)"
  by (simp add: Get_def)

lemma csmap_ok_New: "csmap_ok (items (fst (New h resolution)))"
  by (simp add: New_def Let_def csmap_ok_Create)

lemma Load_New: "csmap_Load (items (fst (New h resolution))) k = None"
  by (simp add: New_def Let_def csmap_Load_def csmap_Create_def shard_index_def)

section \<open>The store invariant\<close>

text \<open>
  Every operation of the store keeps it consistent, so every state reached from \<open>New\<close>
  is consistent; in a consistent store the entries that \<open>Range\<close> visits are exactly the
  pairs that \<open>Load\<close> finds.
\<close>

lemma csmap_inv_iff:
  "csmap_inv m \<longleftrightarrow>
     shards m \<noteq> [] \<and>
     (\<forall>i<length (shards m). distinct (map fst (shards m ! i)) \<and>
        (\<forall>e\<in>set (shards m ! i). shard_index m (fst e) = i))"
  by (auto simp: csmap_inv_def list_all_iff)

lemma csmap_inv_ok: "csmap_inv m \<Longrightarrow> csmap_ok m"
  by (simp add: csmap_inv_iff csmap_ok_def)

lemma entries_Load:
  assumes "csmap_inv m"
  shows "((k, it) \<in> set (concat (shards m))) = (csmap_Load m k = Some it)"
proof
  assume "(k, it) \<in> set (concat (shards m))"
  then obtain xs where "xs \<in> set (shards m)" and "(k, it) \<in> set xs"
    by auto
  then obtain i where i: "i < length (shards m)" and mem: "(k, it) \<in> set (shards m ! i)"
    by (metis in_set_conv_nth)
  from assms i have "distinct (map fst (shards m ! i))"
    and "\<forall>e\<in>set (shards m ! i). shard_index m (fst e) = i"
    by (simp_all add: csmap_inv_iff)
  with mem have "shard_index m k = i" and "distinct (map fst (shards m ! i))"
    by force+
  with mem show "csmap_Load m k = Some it"
    by (simp add: csmap_Load_def)
next
  assume "csmap_Load m k = Some it"
  then have "(k, it) \<in> set (shards m ! shard_index m k)"
    by (simp add: csmap_Load_def map_of_SomeD)
  moreover have "shard_index m k < length (shards m)"
    using assms by (simp add: csmap_inv_ok shard_index_less)
  ultimately show "(k, it) \<in> set (concat (shards m))"
    by (auto intro: nth_mem)
qed

lemma set_update_subset: "set (AList.update k v al) \<subseteq> insert (k, v) (set al)"
  by (induction al) auto

lemma set_delete_subset: "set (AList.delete k al) \<subseteq> set al"
  by (induction al) auto

lemma csmap_inv_Store:
  assumes "csmap_inv m"
  shows "csmap_inv (csmap_Store m k v)"
proof -
  let ?j = "shard_index m k"
  let ?m' = "csmap_Store m k v"
  have sh: "shards ?m' = (shards m)[?j := AList.update k v (shards m ! ?j)]"
    by (simp add: csmap_Store_def)
  have "distinct (map fst (shards ?m' ! i)) \<and>
        (\<forall>e\<in>set (shards ?m' ! i). shard_index ?m' (fst e) = i)"
    if i: "i < length (shards m)" for i
  proof (cases "i = ?j")
    case True
    from assms i have old: "distinct (map fst (shards m ! i))"
      "\<forall>e\<in>set (shards m ! i). shard_index m (fst e) = i"
      by (simp_all add: csmap_inv_iff)
    have "shards ?m' ! i = AList.update k v (shards m ! i)"
      using True i by (simp add: sh)
    then show ?thesis
      using old True set_update_subset [of k v "shards m ! i"]
      by (auto simp: distinct_update)
  next
    case False
    then have "shards ?m' ! i = shards m ! i"
      by (simp add: sh)
    with assms i show ?thesis
      by (simp add: csmap_inv_iff)
  qed
  moreover have "shards ?m' \<noteq> []" and "length (shards ?m') = length (shards m)"
    using assms by (simp_all add: sh csmap_inv_iff)
  ultimately show ?thesis
    by (simp add: csmap_inv_iff)
qed

lemma csmap_inv_Delete:
  assumes "csmap_inv m"
  shows "csmap_inv (csmap_Delete m k)"
proof -
  let ?j = "shard_index m k"
  let ?m' = "csmap_Delete m k"
  have sh: "shards ?m' = (shards m)[?j := AList.delete k (shards m ! ?j)]"
    by (simp add: csmap_Delete_def)
  have "distinct (map fst (shards ?m' ! i)) \<and>
        (\<forall>e\<in>set (shards ?m' ! i). shard_index ?m' (fst e) = i)"
    if i: "i < length (shards m)" for i
  proof (cases "i = ?j")
    case True
    from assms i have old: "distinct (map fst (shards m ! i))"
      "\<forall>e\<in>set (shards m ! i). shard_index m (fst e) = i"
      by (simp_all add: csmap_inv_iff)
    have "shards ?m' ! i = AList.delete k (shards m ! i)"
      using True i by (simp add: sh)
    then show ?thesis
      using old True set_delete_subset [of k "shards m ! i"]
      by (auto simp: distinct_delete)
  next
    case False
    then have "shards ?m' ! i = shards m ! i"
      by (simp add: sh)
    with assms i show ?thesis
      by (simp add: csmap_inv_iff)
  qed
  moreover have "shards ?m' \<noteq> []" and "length (shards ?m') = length (shards m)"
    using assms by (simp_all add: sh csmap_inv_iff)
  ultimately show ?thesis
    by (simp add: csmap_inv_iff)
qed

lemma csmap_inv_Clear: "csmap_inv m \<Longrightarrow> csmap_inv (csmap_Clear m)"
  by (simp add: csmap_inv_iff csmap_Clear_def shard_index_def)

lemma csmap_inv_Create: "0 < n \<Longrightarrow> csmap_inv (csmap_Create h n sz)"
  by (simp add: csmap_inv_iff csmap_Create_def)

section \<open>The sweep pass\<close>

text \<open>
  What the scan of \<open>cleanup\<close> computes: started at index \<open>i\<close> with room for the expired
  entries, it never writes out of range, writes the expired keys in the order of the
  traversal from index \<open>i\<close> on, and leaves the rest of the slice as it was.
\<close>

lemma is_expired_pair: "is_expired now (ky, it) = (deadline it <s now)"
  by (simp add: is_expired_def)

lemma range_cleanup_visit:
  "i + length (filter (is_expired now) es) \<le> length k \<Longrightarrow>
   range_entries (cleanup_visit now) es (k, i) =
     Inr (take i k @ map fst (filter (is_expired now) es)
            @ drop (i + length (filter (is_expired now) es)) k,
          i + length (filter (is_expired now) es))"
proof (induction es arbitrary: k i)
  case Nil
  then show ?case by simp
next
  case (Cons e es)
  obtain ky it where e: "e = (ky, it)" by (cases e)
  show ?case
  proof (cases "deadline it <s now")
    case True
    with Cons.prems e have lt: "i < length k"
      and room: "Suc i + length (filter (is_expired now) es) \<le> length (k[i := ky])"
      by (simp_all add: is_expired_pair)
    have tk: "take (Suc i) (k[i := ky]) = take i k @ [ky]"
      using lt by (simp add: take_Suc_conv_app_nth)
    show ?thesis
      using True e lt Cons.IH [OF room] tk
      by (simp add: cleanup_visit_def is_expired_pair)
  next
    case False
    with Cons.prems e have room: "i + length (filter (is_expired now) es) \<le> length k"
      by (simp add: is_expired_pair)
    show ?thesis
      using False e Cons.IH [OF room]
      by (simp add: cleanup_visit_def is_expired_pair)
  qed
qed

lemma Count_concat: "csmap_Count m = length (concat (shards m))"
  by (simp add: csmap_Count_def length_concat)

lemma cleanup_scan_eq:
  "cleanup_scan now c =
     Inr (map fst (expired_entries now (items c))
            @ replicate (csmap_Count (items c) - length (expired_entries now (items c))) 0,
          length (expired_entries now (items c)))"
proof -
  have "length (filter (is_expired now) (concat (shards (items c))))
          \<le> length (replicate (csmap_Count (items c)) (0 :: key))"
    by (simp add: Count_concat)
  then show ?thesis
    using range_cleanup_visit [of 0 now "concat (shards (items c))"
        "replicate (csmap_Count (items c)) 0"]
    by (simp add: cleanup_scan_def csmap_Range_def expired_entries_def)
qed

lemma Load_fold_Delete:
  "csmap_ok m \<Longrightarrow>
   csmap_Load (fold (\<lambda>d m. csmap_Delete m d) ks m) k' =
     (if k' \<in> set ks then None else csmap_Load m k')"
  by (induction ks arbitrary: m) (simp_all add: Load_Delete)

lemma range_too_short:
  "range_entries (cleanup_visit 50) [(1, \<lparr>deadline = 10, val = Some ''a''\<rparr>)] ([], 0)
     = Inl IndexOutOfRange"
  by (simp add: cleanup_visit_def)

lemma some_not_expired:
  "(length (filter P es) < length es) = (\<exists>e\<in>set es. \<not> P e)"
proof
  assume "length (filter P es) < length es"
  then have "filter P es \<noteq> es" by auto
  then show "\<exists>e\<in>set es. \<not> P e" by (simp add: filter_id_conv)
next
  assume "\<exists>e\<in>set es. \<not> P e"
  then show "length (filter P es) < length es"
    by (auto intro: length_filter_less)
qed

lemma csmap_inv_fold_Delete:
  "csmap_inv m \<Longrightarrow> csmap_inv (fold (\<lambda>d m. csmap_Delete m d) ks m)"
  by (induction ks arbitrary: m) (simp_all add: csmap_inv_Delete)

lemma cleanup_eq:
  "cleanup now c =
     Inr (c\<lparr>items := fold (\<lambda>d m. csmap_Delete m d)
            (map fst (expired_entries now (items c))
               @ replicate (csmap_Count (items c) - length (expired_entries now (items c))) 0)
            (items c)\<rparr>)"
  by (simp add: cleanup_def cleanup_scan_eq)

lemma cleanup_effect:
  assumes "csmap_inv (items c)"
  shows "\<exists>c'. cleanup now c = Inr c' \<and> done_ch c' = done_ch c \<and> csmap_inv (items c') \<and>
           (\<forall>k'. csmap_Load (items c') k' =
              (if (\<exists>it. csmap_Load (items c) k' = Some it \<and> deadline it <s now) \<or>
                  (k' = 0 \<and>
                   (\<exists>k it. csmap_Load (items c) k = Some it \<and> \<not> deadline it <s now))
               then None else csmap_Load (items c) k'))"
proof -
  let ?es = "concat (shards (items c))"
  let ?ex = "expired_entries now (items c)"
  let ?n = "csmap_Count (items c) - length ?ex"
  let ?ks = "map fst ?ex @ replicate ?n 0"
  let ?c' = "c\<lparr>items := fold (\<lambda>d m. csmap_Delete m d) ?ks (items c)\<rparr>"
  have sel: "items ?c' = fold (\<lambda>d m. csmap_Delete m d) ?ks (items c)"
    by simp
  have ok: "csmap_ok (items c)"
    using assms by (rule csmap_inv_ok)
  have expired: "(k' \<in> fst ` set ?ex) =
      (\<exists>it. csmap_Load (items c) k' = Some it \<and> deadline it <s now)" for k'
    using entries_Load [OF assms]
    by (force simp: expired_entries_def is_expired_def)
  have "(0 < ?n) = (\<exists>e\<in>set ?es. \<not> is_expired now e)"
    using some_not_expired [of "is_expired now" ?es]
    by (simp add: Count_concat expired_entries_def)
  also have "\<dots> = (\<exists>k it. csmap_Load (items c) k = Some it \<and> \<not> deadline it <s now)"
    using entries_Load [OF assms]
    by (force simp: is_expired_def)
  finally have slack: "(0 < ?n) =
      (\<exists>k it. csmap_Load (items c) k = Some it \<and> \<not> deadline it <s now)" .
  have ks: "(k' \<in> set ?ks) =
      ((\<exists>it. csmap_Load (items c) k' = Some it \<and> deadline it <s now) \<or>
       (k' = 0 \<and> (\<exists>k it. csmap_Load (items c) k = Some it \<and> \<not> deadline it <s now)))"
    for k'
    using expired [of k'] slack by auto
  have "cleanup now c = Inr ?c'"
    by (rule cleanup_eq)
  moreover have "done_ch ?c' = done_ch c"
    by simp
  moreover have "csmap_inv (items ?c')"
    unfolding sel using assms by (rule csmap_inv_fold_Delete)
  moreover have "csmap_Load (items ?c') k' =
      (if (\<exists>it. csmap_Load (items c) k' = Some it \<and> deadline it <s now) \<or>
          (k' = 0 \<and> (\<exists>k it. csmap_Load (items c) k = Some it \<and> \<not> deadline it <s now))
       then None else csmap_Load (items c) k')" for k'
    unfolding sel using ks [of k'] ok by (simp only: Load_fold_Delete)
  ultimately show ?thesis
    by blast
qed

text \<open>
  Key 0 does not survive a pass in which it is present: either it is expired, or it is
  not and then the slice has a slot left at zero, which the final loop deletes.
\<close>

lemma cleanup_key_zero:
  assumes "csmap_inv (items c)" and "csmap_Load (items c) 0 = Some it"
  shows "\<exists>c'. cleanup now c = Inr c' \<and> Get c' 0 = (None, False)"
proof -
  from cleanup_effect [OF assms(1), of now] obtain c' where
    c': "cleanup now c = Inr c'" and
    load: "csmap_Load (items c') 0 =
      (if (\<exists>it. csmap_Load (items c) 0 = Some it \<and> deadline it <s now) \<or>
          ((0 :: key) = 0 \<and>
           (\<exists>k it. csmap_Load (items c) k = Some it \<and> \<not> deadline it <s now))
       then None else csmap_Load (items c) 0)"
    by blast
  have "(\<exists>it. csmap_Load (items c) 0 = Some it \<and> deadline it <s now) \<or>
      (\<exists>k it. csmap_Load (items c) k = Some it \<and> \<not> deadline it <s now)"
    using assms(2) by (cases "deadline it <s now") auto
  with load have "csmap_Load (items c') 0 = None"
    by simp
  with c' show ?thesis
    by (simp add: Get_absent)
qed

text \<open>
  The sweeper on its own: a pass leaves the channel as it is, so while the channel is open
  the loop goes on whatever the schedule, and once it is closed the \<open>done\<close> case ends it.
\<close>

lemma cleanup_done_ch: "cleanup now c = Inr c' \<Longrightarrow> done_ch c' = done_ch c"
  by (auto simp: cleanup_eq)

lemma cleaner_loop_open:
  "done_ch c = Open \<Longrightarrow> \<exists>c'. cleaner_loop evs c = Inr (Running, c') \<and> done_ch c' = Open"
proof (induction evs arbitrary: c)
  case Nil
  then show ?case by simp
next
  case (Cons ev evs)
  show ?case
  proof (cases ev)
    case (Tick now)
    obtain c1 where c1: "cleanup now c = Inr c1"
      by (simp add: cleanup_eq)
    then have "done_ch c1 = Open"
      using Cons.prems by (simp add: cleanup_done_ch)
    from Cons.IH [OF this] c1 Tick show ?thesis
      by simp
  next
    case DoneReceived
    with Cons.prems Cons.IH [OF Cons.prems] show ?thesis
      by simp
  qed
qed

lemma cleaner_loop_closed:
  "done_ch c = Closed \<Longrightarrow> cleaner_loop (DoneReceived # evs) c = Inr (Stopped, c)"
  by simp

lemma cleaner_open:
  "0 < sint resolution \<Longrightarrow> done_ch c = Open \<Longrightarrow>
   \<exists>c'. cleaner c resolution evs = Inr (Running, c') \<and> done_ch c' = Open"
  using cleaner_loop_open [of c evs] by (simp add: cleaner_def cleaner_start_def)

text \<open>Every reachable state has a consistent store.\<close>

lemma reachable_inv: "reachable c \<Longrightarrow> csmap_inv (items c)"
proof (induction rule: reachable.induct)
  case (reach_New resolution h)
  show ?case
    by (simp add: New_def Let_def csmap_inv_Create)
next
  case (reach_Set c now k v ttl)
  then show ?case
    by (simp add: Set_def csmap_inv_Store)
next
  case (reach_Delete c k)
  then show ?case
    by (simp add: Delete_def csmap_inv_Delete)
next
  case (reach_Clear c)
  then show ?case
    by (simp add: Clear_def csmap_inv_Clear)
next
  case (reach_Close c e c')
  then show ?case
    by (auto simp: Close_def csmap_inv_Clear split: sum.splits)
next
  case (reach_cleanup c now c')
  from cleanup_effect [OF reach_cleanup.IH, of now] reach_cleanup.hyps(2)
  show ?case
    by auto
qed

section \<open>Set and Get\<close>

text \<open>
  Claim C2. For every key \<open>k\<close>, value \<open>v\<close>, ttl \<open>t\<close> and every prior state of the cache,
  also one that holds an item under \<open>k\<close>: right after \<open>Set(k, v, t)\<close>, \<open>Get(k)\<close> returns
  \<open>(v, true)\<close> and the item stored under \<open>k\<close> has the deadline \<open>now + t\<close>, whatever was
  stored before. The sum is the \<open>int64\<close> sum of the code. The statement holds for every
  \<open>t\<close>, so in particular for \<open>t > 0\<close>.
\<close>

theorem Set_then_Get:
  "csmap_ok (items c) \<Longrightarrow>
   Get (Set now c k v t) k = (v, True) \<and>
   csmap_Load (items (Set now c k v t)) k = Some \<lparr>deadline = now + t, val = v\<rparr>"
  by (simp add: Set_def Get_def Load_Store)

theorem Set_then_Get_witness:
  "csmap_ok (items example_cache) \<and>
   Get example_cache 1 = (Some ''a'', True) \<and>
   Get (Set 2000 example_cache 1 (Some ''z'') 7) 1 = (Some ''z'', True) \<and>
   csmap_Load (items (Set 2000 example_cache 1 (Some ''z'') 7)) 1 =
     Some \<lparr>deadline = 2007, val = Some ''z''\<rparr>"
  using Set_then_Get [of example_cache 2000 1 "Some ''z''" 7]
  by (simp add: example_cache_def Set_def Get_def Load_Store csmap_ok_New)

text \<open>
  The \<open>int64\<close> sum is the exact sum of the two numbers as long as that sum fits into
  63 bits and a sign; beyond, it wraps around, and a large ttl gives a deadline in the past.
\<close>

lemma Set_deadline_exact:
  assumes "csmap_ok (items c)"
    and "- (2 ^ 63) \<le> sint now + sint t" and "sint now + sint t < 2 ^ 63"
  shows "\<exists>it. csmap_Load (items (Set now c k v t)) k = Some it \<and>
              sint (deadline it) = sint now + sint t"
proof -
  have "sint (now + t) = sint now + sint t"
    using assms(2,3) by (simp add: sint_word_ariths signed_take_bit_int_eq_self)
  with assms(1) show ?thesis
    by (simp add: Set_def Load_Store)
qed

lemma Set_deadline_wraps:
  "csmap_Load (items (Set 1793500000000000000 example_cache 1 (Some ''z'')
       9223372036854775807)) 1 =
     Some \<lparr>deadline = - 7429872036854775809, val = Some ''z''\<rparr>"
  by (simp add: example_cache_def Set_def Load_Store csmap_ok_New)

text \<open>
  Claim C3. \<open>Get\<close> does not look at the deadline: for every key present in the store,
  \<open>Get\<close> returns the stored value and \<open>true\<close>, whatever the deadline of the item is and
  whatever the time is (the clock is not among the arguments of \<open>Get\<close>).
\<close>

theorem Get_ignores_deadline:
  "csmap_Load (items c) k = Some it \<Longrightarrow> Get c k = (val it, True)"
  by (simp add: Get_def)

theorem Get_ignores_deadline_witness:
  "csmap_Load (items example_cache) 1 = Some \<lparr>deadline = 1050, val = Some ''a''\<rparr> \<and>
   (1050 :: int64) <s 999999 \<and>
   Get example_cache 1 = (val \<lparr>deadline = 1050, val = Some ''a''\<rparr>, True)"
  using Get_ignores_deadline [of example_cache 1 "\<lparr>deadline = 1050, val = Some ''a''\<rparr>"]
  by (simp add: example_cache_def Set_def Load_Store csmap_ok_New)

section \<open>Delete\<close>

text \<open>
  Claim C6. For every key \<open>k\<close> and every state of the cache, whatever operations made it:
  right after \<open>Delete(k)\<close>, \<open>Get(k)\<close> returns \<open>(nil, false)\<close>.
\<close>

theorem Delete_then_Get:
  "csmap_ok (items c) \<Longrightarrow> Get (Delete c k) k = (None, False)"
  by (simp add: Delete_def Get_def Load_Delete)

theorem Delete_then_Get_witness:
  "csmap_ok (items example_cache) \<and>
   Get example_cache 33 = (Some ''b'', True) \<and>
   Get (Delete example_cache 33) 33 = (None, False)"
  using Delete_then_Get [of example_cache 33]
  by (simp add: example_cache_def Set_def Get_def Load_Store csmap_ok_New)

lemma csmap_Delete_absent:
  assumes "csmap_Load m k = None"
  shows "csmap_Delete m k = m"
proof -
  have "k \<notin> fst ` set (shards m ! shard_index m k)"
    using assms by (simp add: csmap_Load_def map_of_eq_None_iff)
  then have "AList.delete k (shards m ! shard_index m k) = shards m ! shard_index m k"
    by simp
  then show ?thesis
    by (simp add: csmap_Delete_def)
qed

lemma csmap_Delete_twice: "csmap_Delete (csmap_Delete m k) k = csmap_Delete m k"
proof (cases "shard_index m k < length (shards m)")
  case True
  then show ?thesis
    by (simp add: csmap_Delete_def shard_index_def delete_idem)
next
  case False
  then show ?thesis
    by (simp add: csmap_Delete_def shard_index_def list_update_beyond)
qed

text \<open>
  Claim C7. \<open>Delete(k)\<close> of a key that is absent from the store leaves the store as it
  is, and \<open>Delete\<close> is idempotent: deleting \<open>k\<close> twice gives the state that deleting it
  once gives.
\<close>

theorem Delete_absent_idempotent:
  "(csmap_Load (items c) k = None \<longrightarrow> Delete c k = c) \<and>
   Delete (Delete c k) k = Delete c k"
  by (simp add: Delete_def csmap_Delete_absent csmap_Delete_twice)

theorem Delete_absent_idempotent_witness:
  "csmap_Load (items example_cache) 2 = None \<and>
   Delete example_cache 2 = example_cache \<and>
   Delete (Delete example_cache 1) 1 = Delete example_cache 1"
proof -
  have absent: "csmap_Load (items example_cache) 2 = None"
    by (simp add: example_cache_def Set_def Load_Store csmap_ok_New Load_New)
  show ?thesis
    using absent Delete_absent_idempotent [of example_cache 2]
      Delete_absent_idempotent [of example_cache 1]
    by simp
qed

section \<open>Clear and Close\<close>

lemma Get_Clear: "csmap_ok (items c) \<Longrightarrow> Get (Clear c) k = (None, False)"
  by (simp add: Clear_def Get_def Load_Clear)

lemma csmap_ok_items_Clear: "csmap_ok (items (Clear c)) = csmap_ok (items c)"
  by (simp add: Clear_def)

lemma csmap_inv_Clear_ok: "csmap_ok m \<Longrightarrow> csmap_inv (csmap_Clear m)"
  by (simp add: csmap_inv_iff csmap_ok_def csmap_Clear_def)

text \<open>A pass over a cleared cache finds nothing and deletes nothing.\<close>

lemma cleanup_Clear: "cleanup now (Clear c) = Inr (Clear c)"
proof -
  have "expired_entries now (items (Clear c)) = []"
    by (simp add: expired_entries_def Clear_def csmap_Clear_def)
  moreover have "csmap_Count (items (Clear c)) = 0"
    by (simp add: Count_concat Clear_def csmap_Clear_def)
  ultimately show ?thesis
    by (simp add: cleanup_eq)
qed

lemma cleaner_loop_Clear:
  "done_ch c = Open \<Longrightarrow> cleaner_loop evs (Clear c) = Inr (Running, Clear c)"
proof (induction evs)
  case Nil
  show ?case by simp
next
  case (Cons ev evs)
  have "done_ch (Clear c) = Open"
    using Cons.prems by (simp add: Clear_def)
  with Cons show ?case
    by (cases ev) (simp_all add: cleanup_Clear)
qed

text \<open>
  A cycle after \<open>Clear\<close>: an item is set with ttl \<open>t\<close> at time \<open>now\<close>, and the sweeper
  runs a pass at time \<open>now'\<close>. When the deadline is before \<open>now'\<close> the pass removes the
  item and leaves the store empty; when it is not, the pass keeps the item, key 0 apart.
\<close>

lemma sweep_after_Clear_Set:
  assumes ok: "csmap_ok (items c)"
  shows "\<exists>c'. cleanup now' (Set now (Clear c) k v t) = Inr c' \<and> done_ch c' = done_ch c \<and>
           (\<forall>k'. Get c' k' =
              (if k' = k \<and> \<not> now + t <s now' \<and> k \<noteq> 0 then (v, True) else (None, False)))"
proof -
  let ?s = "Set now (Clear c) k v t"
  have ok': "csmap_ok (items (Clear c))"
    using ok by (simp add: csmap_ok_items_Clear)
  have inv: "csmap_inv (items ?s)"
    using ok by (simp add: Set_def Clear_def csmap_inv_Store csmap_inv_Clear_ok)
  have load: "csmap_Load (items ?s) k' =
      (if k' = k then Some \<lparr>deadline = now + t, val = v\<rparr> else None)" for k'
    using ok ok' by (simp add: Set_def Load_Store) (simp add: Clear_def Load_Clear)
  have dn: "done_ch ?s = done_ch c"
    by (simp add: Set_def Clear_def)
  from cleanup_effect [OF inv, of now'] obtain c' where
    c': "cleanup now' ?s = Inr c'" and d': "done_ch c' = done_ch ?s" and
    eff: "\<forall>k'. csmap_Load (items c') k' =
      (if (\<exists>it. csmap_Load (items ?s) k' = Some it \<and> deadline it <s now') \<or>
          (k' = 0 \<and> (\<exists>k it. csmap_Load (items ?s) k = Some it \<and> \<not> deadline it <s now'))
       then None else csmap_Load (items ?s) k')"
    by blast
  have "Get c' k' =
      (if k' = k \<and> \<not> now + t <s now' \<and> k \<noteq> 0 then (v, True) else (None, False))" for k'
    using eff [rule_format, of k'] by (auto simp: Get_def load)
  with c' d' dn show ?thesis
    by simp
qed

text \<open>
  Claim C8. \<open>Clear()\<close> removes every entry, so that afterwards \<open>Get(k)\<close> returns
  \<open>(nil, false)\<close> for every key, and leaves the rest of the cache as it was: the channel
  \<open>done\<close>, the hash function and the number of shards. With the channel still open the
  sweeper cannot take the \<open>done\<close> case of its \<open>select\<close>, a tick runs a pass that leaves
  the cleared cache as it is, and so the sweeper keeps running along every schedule. The
  cycles go on as before: a later \<open>Set\<close> is seen by \<open>Get\<close>; a pass of the sweeper after
  the deadline of that item removes it and leaves the channel alone; a pass at or before
  the deadline keeps it (for a key other than 0, which no pass keeps).
\<close>

theorem Clear_removes_all_keeps_rest:
  "csmap_ok (items c) \<Longrightarrow>
   (\<forall>k. Get (Clear c) k = (None, False)) \<and>
   done_ch (Clear c) = done_ch c \<and>
   hasher (items (Clear c)) = hasher (items c) \<and>
   length (shards (items (Clear c))) = length (shards (items c)) \<and>
   (done_ch c = Open \<longrightarrow> cleaner_select DoneReceived (Clear c) = None) \<and>
   (\<forall>now. cleaner_select (Tick now) (Clear c) = Some (Inr (Running, Clear c))) \<and>
   (done_ch c = Open \<longrightarrow> (\<forall>evs. cleaner_loop evs (Clear c) = Inr (Running, Clear c))) \<and>
   (\<forall>now k v t. Get (Set now (Clear c) k v t) k = (v, True)) \<and>
   (\<forall>now k v t now'. now + t <s now' \<longrightarrow>
      (\<exists>c'. cleaner_select (Tick now') (Set now (Clear c) k v t) = Some (Inr (Running, c')) \<and>
            done_ch c' = done_ch c \<and> (\<forall>k'. Get c' k' = (None, False)))) \<and>
   (\<forall>now k v t now'. \<not> now + t <s now' \<and> k \<noteq> 0 \<longrightarrow>
      (\<exists>c'. cleaner_select (Tick now') (Set now (Clear c) k v t) = Some (Inr (Running, c')) \<and>
            done_ch c' = done_ch c \<and> Get c' k = (v, True)))"
proof -
  assume ok: "csmap_ok (items c)"
  then have ok': "csmap_ok (items (Clear c))"
    by (simp add: csmap_ok_items_Clear)
  have gone: "\<forall>k. Get (Clear c) k = (None, False)"
    using ok by (simp add: Get_Clear)
  have frame: "done_ch (Clear c) = done_ch c \<and>
      hasher (items (Clear c)) = hasher (items c) \<and>
      length (shards (items (Clear c))) = length (shards (items c))"
    by (simp add: Clear_def csmap_Clear_def)
  have sweeper: "done_ch c = Open \<longrightarrow> cleaner_select DoneReceived (Clear c) = None"
    by (simp add: Clear_def)
  have tick: "\<forall>now. cleaner_select (Tick now) (Clear c) = Some (Inr (Running, Clear c))"
    by (simp add: cleanup_Clear)
  have runs: "done_ch c = Open \<longrightarrow> (\<forall>evs. cleaner_loop evs (Clear c) = Inr (Running, Clear c))"
    by (simp add: cleaner_loop_Clear)
  have again: "\<forall>now k v t. Get (Set now (Clear c) k v t) k = (v, True)"
    using ok' by (simp add: Get_Set)
  have pass: "\<exists>c'. cleaner_select (Tick now') (Set now (Clear c) k v t) = Some (Inr (Running, c')) \<and>
      done_ch c' = done_ch c \<and>
      (\<forall>k'. Get c' k' =
         (if k' = k \<and> \<not> now + t <s now' \<and> k \<noteq> 0 then (v, True) else (None, False)))"
    for now k v t now'
    using sweep_after_Clear_Set [OF ok, where now' = now' and now = now and k = k and v = v and t = t]
    by auto
  have expire: "\<forall>now k v t now'. now + t <s now' \<longrightarrow>
      (\<exists>c'. cleaner_select (Tick now') (Set now (Clear c) k v t) = Some (Inr (Running, c')) \<and>
            done_ch c' = done_ch c \<and> (\<forall>k'. Get c' k' = (None, False)))"
  proof (intro allI impI)
    fix now t now' :: int64 and k :: key and v :: "'a iface"
    assume "now + t <s now'"
    with pass [where now = now and k = k and v = v and t = t and now' = now'] show
      "\<exists>c'. cleaner_select (Tick now') (Set now (Clear c) k v t) = Some (Inr (Running, c')) \<and>
            done_ch c' = done_ch c \<and> (\<forall>k'. Get c' k' = (None, False))"
      by auto
  qed
  have keep: "\<forall>now k v t now'. \<not> now + t <s now' \<and> k \<noteq> 0 \<longrightarrow>
      (\<exists>c'. cleaner_select (Tick now') (Set now (Clear c) k v t) = Some (Inr (Running, c')) \<and>
            done_ch c' = done_ch c \<and> Get c' k = (v, True))"
  proof (intro allI impI)
    fix now t now' :: int64 and k :: key and v :: "'a iface"
    assume "\<not> now + t <s now' \<and> k \<noteq> 0"
    with pass [where now = now and k = k and v = v and t = t and now' = now'] show
      "\<exists>c'. cleaner_select (Tick now') (Set now (Clear c) k v t) = Some (Inr (Running, c')) \<and>
            done_ch c' = done_ch c \<and> Get c' k = (v, True)"
      by auto
  qed
  from gone frame sweeper tick runs again expire keep show ?thesis
    by blast
qed

theorem Clear_removes_all_keeps_rest_witness:
  "csmap_ok (items example_cache) \<and>
   Get example_cache 1 = (Some ''a'', True) \<and>
   Get (Clear example_cache) 1 = (None, False) \<and>
   Get (Clear example_cache) 33 = (None, False) \<and>
   done_ch example_cache = Open \<and>
   done_ch (Clear example_cache) = Open \<and>
   length (shards (items (Clear example_cache))) = 32 \<and>
   cleaner_select DoneReceived (Clear example_cache) = None \<and>
   cleaner_select (Tick 2000) (Clear example_cache) =
     Some (Inr (Running, Clear example_cache)) \<and>
   cleaner_loop [Tick 2000, DoneReceived, Tick 3000] (Clear example_cache) =
     Inr (Running, Clear example_cache) \<and>
   Get (Set 2000 (Clear example_cache) 1 (Some ''c'') 10) 1 = (Some ''c'', True) \<and>
   (2000 :: int64) + 10 <s 3000 \<and>
   (\<exists>c'. cleaner_select (Tick 3000) (Set 2000 (Clear example_cache) 1 (Some ''c'') 10) =
           Some (Inr (Running, c')) \<and>
         done_ch c' = Open \<and> Get c' 1 = (None, False)) \<and>
   \<not> (2000 :: int64) + 10 <s 2005 \<and> (1 :: key) \<noteq> 0 \<and>
   (\<exists>c'. cleaner_select (Tick 2005) (Set 2000 (Clear example_cache) 1 (Some ''c'') 10) =
           Some (Inr (Running, c')) \<and>
         done_ch c' = Open \<and> Get c' 1 = (Some ''c'', True))"
proof -
  have ok: "csmap_ok (items example_cache)"
    by (simp add: example_cache_def Set_def csmap_ok_New)
  have before: "Get example_cache 1 = (Some ''a'', True)"
    by (simp add: example_cache_def Set_def Get_def Load_Store csmap_ok_New)
  have open_ch: "done_ch example_cache = Open"
    by (simp add: example_cache_def Set_def New_def Let_def)
  have len: "length (shards (items example_cache)) = 32"
    by (simp add: example_cache_def Set_def New_def Let_def csmap_Store_def csmap_Create_def)
  have late: "(2000 :: int64) + 10 <s 3000"
    by simp
  have early: "\<not> (2000 :: int64) + 10 <s 2005 \<and> (1 :: key) \<noteq> 0"
    by simp
  note all = Clear_removes_all_keeps_rest [OF ok]
  from all late have expired:
    "\<exists>c'. cleaner_select (Tick 3000) (Set 2000 (Clear example_cache) 1 (Some ''c'') 10) =
           Some (Inr (Running, c')) \<and>
         done_ch c' = done_ch example_cache \<and> Get c' 1 = (None, False)"
    by blast
  from all early have kept:
    "\<exists>c'. cleaner_select (Tick 2005) (Set 2000 (Clear example_cache) 1 (Some ''c'') 10) =
           Some (Inr (Running, c')) \<and>
         done_ch c' = done_ch example_cache \<and> Get c' 1 = (Some ''c'', True)"
    by blast
  from all open_ch have rest:
    "Get (Clear example_cache) 1 = (None, False) \<and>
     Get (Clear example_cache) 33 = (None, False) \<and>
     done_ch (Clear example_cache) = Open \<and>
     length (shards (items (Clear example_cache))) = length (shards (items example_cache)) \<and>
     cleaner_select DoneReceived (Clear example_cache) = None \<and>
     cleaner_select (Tick 2000) (Clear example_cache) =
       Some (Inr (Running, Clear example_cache)) \<and>
     cleaner_loop [Tick 2000, DoneReceived, Tick 3000] (Clear example_cache) =
       Inr (Running, Clear example_cache) \<and>
     Get (Set 2000 (Clear example_cache) 1 (Some ''c'') 10) 1 = (Some ''c'', True)"
    by simp
  from ok before open_ch len late early expired kept rest show ?thesis
    by (simp only: open_ch len) blast
qed

lemma Close_open:
  "done_ch c = Open \<Longrightarrow>
   Close c = Inr (None, c\<lparr>done_ch := Closed, items := csmap_Clear (items c)\<rparr>)"
  by (simp add: Close_def)

lemma Close_closed: "done_ch c = Closed \<Longrightarrow> Close c = Inl CloseOfClosedChannel"
  by (simp add: Close_def)

lemma Close_example: "Close example_cache = Inr (None, closed_cache)"
  by (simp add: Close_def closed_cache_def example_cache_def Set_def New_def Let_def)

text \<open>
  Claim C9. The first \<open>Close()\<close> of an open cache closes the channel \<open>done\<close>, which
  lets the sweeper take the \<open>done\<close> case of its \<open>select\<close> and stop, clears the store,
  and returns the \<open>nil\<close> error: afterwards \<open>Get(k)\<close> returns \<open>(nil, false)\<close> for every
  key.
\<close>

theorem Close_first:
  "csmap_ok (items c) \<Longrightarrow> done_ch c = Open \<Longrightarrow>
   (\<exists>c'. Close c = Inr (None, c') \<and>
         done_ch c' = Closed \<and>
         (\<forall>k. Get c' k = (None, False)) \<and>
         cleaner_select DoneReceived c' = Some (Inr (Stopped, c')))"
  by (simp add: Close_open Get_def Load_Clear)

theorem Close_first_witness:
  "csmap_ok (items example_cache) \<and> done_ch example_cache = Open \<and>
   (\<exists>c'. Close example_cache = Inr (None, c') \<and>
         done_ch c' = Closed \<and>
         (\<forall>k. Get c' k = (None, False)) \<and>
         cleaner_select DoneReceived c' = Some (Inr (Stopped, c')))"
proof -
  have ok: "csmap_ok (items example_cache)"
    by (simp add: example_cache_def Set_def csmap_ok_New)
  have open_ch: "done_ch example_cache = Open"
    by (simp add: example_cache_def Set_def New_def Let_def)
  show ?thesis
    using ok open_ch Close_first [OF ok open_ch] by simp
qed

text \<open>
  Claim C4. A second \<open>Close()\<close> must not crash. In the code it does: the first call
  leaves the channel closed, and the second call closes it again, which panics before
  anything is cleared or returned.
\<close>

theorem Close_twice_panics:
  "Close example_cache = Inr (None, closed_cache) \<and>
   Close closed_cache = Inl CloseOfClosedChannel"
  by (simp add: Close_example) (simp add: Close_def closed_cache_def)

section \<open>What a sweep pass does\<close>

text \<open>
  Claim C10. In a sequential run of \<open>cleanup\<close> the index \<open>i\<close> stays within the slice made
  from \<open>Count()\<close>: after any number \<open>n\<close> of visited entries the scan has not panicked,
  the slice still has \<open>Count()\<close> elements and \<open>i\<close> is at most \<open>n\<close> and at most the
  length, so the next write \<open>k[i]\<close> is in range; the whole scan and the whole pass end
  without a panic.
\<close>

theorem cleanup_index_in_bounds:
  "(\<exists>k i. range_entries (cleanup_visit now) (take n (concat (shards (items c))))
             (replicate (csmap_Count (items c)) 0, 0) = Inr (k, i) \<and>
          length k = csmap_Count (items c) \<and> i \<le> n \<and> i \<le> length k) \<and>
   (\<exists>k i. cleanup_scan now c = Inr (k, i) \<and>
          length k = csmap_Count (items c) \<and> i \<le> length k) \<and>
   (\<exists>c'. cleanup now c = Inr c')"
proof -
  let ?es = "take n (concat (shards (items c)))"
  let ?f = "filter (is_expired now) ?es"
  let ?k0 = "replicate (csmap_Count (items c)) (0 :: key)"
  have le_n: "length ?f \<le> n"
    using length_filter_le [of "is_expired now" ?es] by simp
  have le_count: "length ?f \<le> csmap_Count (items c)"
    using length_filter_le [of "is_expired now" ?es] by (simp add: Count_concat)
  then have "0 + length ?f \<le> length ?k0"
    by simp
  then have "range_entries (cleanup_visit now) ?es (?k0, 0) =
      Inr (take 0 ?k0 @ map fst ?f @ drop (0 + length ?f) ?k0, 0 + length ?f)"
    by (rule range_cleanup_visit)
  moreover have "length (take 0 ?k0 @ map fst ?f @ drop (0 + length ?f) ?k0)
      = csmap_Count (items c)"
    using le_count by simp
  ultimately have running: "\<exists>k i. range_entries (cleanup_visit now) ?es (?k0, 0) = Inr (k, i) \<and>
      length k = csmap_Count (items c) \<and> i \<le> n \<and> i \<le> length k"
    using le_n le_count by simp
  have "length (expired_entries now (items c)) \<le> csmap_Count (items c)"
    by (simp add: expired_entries_def Count_concat)
  then have whole: "\<exists>k i. cleanup_scan now c = Inr (k, i) \<and>
      length k = csmap_Count (items c) \<and> i \<le> length k"
    by (simp add: cleanup_scan_eq)
  have pass: "\<exists>c'. cleanup now c = Inr c'"
    by (simp add: cleanup_eq)
  from running whole pass show ?thesis
    by blast
qed

text \<open>
  Claim C1. One pass of \<open>cleanup\<close> should delete exactly the keys whose deadline is
  before the \<open>now\<close> it read: every item with deadline at or after \<open>now\<close> stays. The
  code does not keep key 0: the cache holds key 0 with deadline 100, the pass runs at
  time 50, the scan collects nothing and leaves the slice \<open>[0]\<close>, and the final loop
  deletes key 0.
\<close>

theorem cleanup_deletes_unexpired_key_zero:
  "csmap_Load (items zero_cache) 0 = Some \<lparr>deadline = 100, val = Some ''a''\<rparr> \<and>
   \<not> (100 :: int64) <s 50 \<and>
   cleanup_scan 50 zero_cache = Inr ([0], 0) \<and>
   cleanup 50 zero_cache = Inr (fst (New id 1000)) \<and>
   Get (fst (New id 1000) :: string Cache) 0 = (None, False)"
  by code_simp

section \<open>Durations are not validated\<close>

lemma sint_add_nonpos:
  assumes "sint (d :: int64) \<le> 0" and "- (2 ^ 63) \<le> sint (now :: int64) + sint d"
  shows "sint (now + d) \<le> sint now"
proof -
  have "sint now < 2 ^ 63"
    using sint_lt [of now] by simp
  with assms have "sint (now + d) = sint now + sint d"
    by (simp add: sint_word_ariths signed_take_bit_int_eq_self)
  with assms(1) show ?thesis by simp
qed

lemma cleaner_start_nonpositive:
  "sint resolution \<le> 0 \<Longrightarrow> cleaner_start resolution = Inl NonPositiveTickerInterval"
  by (simp add: cleaner_start_def)

text \<open>
  \<open>New\<close> with a non-positive resolution returns the cache, and the goroutine it started
  panics in \<open>time.NewTicker\<close> whatever the schedule: the process ends. With a positive
  resolution the goroutine, left alone with the new cache, keeps running.
\<close>

lemma New_nonpositive_resolution:
  "sint resolution \<le> 0 \<Longrightarrow> snd (New h resolution) evs = Inl NonPositiveTickerInterval"
  by (simp add: New_def Let_def cleaner_def cleaner_start_def)

lemma New_positive_resolution:
  assumes "0 < sint resolution"
  shows "snd (New h resolution) evs = Inr (Running, fst (New h resolution))"
    (is "?run = Inr (Running, ?c)")
proof -
  have cleared: "Clear ?c = ?c"
    by (simp add: New_def Let_def Clear_def csmap_Clear_def csmap_Create_def)
  have "done_ch ?c = Open"
    by (simp add: New_def Let_def)
  then have "cleaner_loop evs (Clear ?c) = Inr (Running, Clear ?c)"
    by (rule cleaner_loop_Clear)
  then have "cleaner_loop evs ?c = Inr (Running, ?c)"
    by (simp only: cleared)
  moreover have "?run = cleaner_loop evs ?c"
    using assms by (simp add: New_def Let_def cleaner_def cleaner_start_def)
  ultimately show ?thesis
    by simp
qed

text \<open>
  Claim C5, as stated: \<open>New\<close> and \<open>Set\<close> reject a non-positive duration instead of
  making a cache or storing an item whose deadline is now or in the past. On a cache made
  with resolution 100, the code stores the item with ttl 0 (deadline 1000 at time 1000),
  and \<open>Get\<close> returns it, and stores the item with ttl -5 (deadline 995).
\<close>

theorem nonpositive_ttl_accepted:
  "csmap_Load (items (Set 1000 (fst (New id 100)) 7 (Some ''a'') 0)) 7 =
     Some \<lparr>deadline = 1000, val = Some ''a''\<rparr> \<and>
   Get (Set 1000 (fst (New id 100)) 7 (Some ''a'') 0) 7 = (Some ''a'', True) \<and>
   csmap_Load (items (Set 1000 (fst (New id 100)) 7 (Some ''a'') (- 5))) 7 =
     Some \<lparr>deadline = 995, val = Some ''a''\<rparr> \<and>
   (995 :: int64) <s 1000"
  by (simp add: Set_def Get_def Load_Store csmap_ok_New)

text \<open>
  Claim C5, amended. \<open>Set\<close> does not look at the sign of its ttl and has no error to
  report: for every non-positive \<open>d\<close>, \<open>Set(k, v, d)\<close> stores the item under \<open>k\<close> with
  the deadline \<open>now + d\<close> (the \<open>int64\<close> sum), so that \<open>Get(k)\<close> returns \<open>(v, true)\<close>,
  and leaves the channel as it is; when the sum does not wrap around, that deadline is not
  after \<open>now\<close>. Nothing is said of \<open>New\<close> with a non-positive resolution.
\<close>

theorem Set_ttl_not_validated:
  assumes "sint d \<le> 0" and "csmap_ok (items c)"
  shows "Get (Set now c k v d) k = (v, True) \<and>
     csmap_Load (items (Set now c k v d)) k = Some \<lparr>deadline = now + d, val = v\<rparr> \<and>
     done_ch (Set now c k v d) = done_ch c \<and>
     (- (2 ^ 63) \<le> sint now + sint d \<longrightarrow> sint (now + d) \<le> sint now)"
proof -
  have stored: "Get (Set now c k v d) k = (v, True) \<and>
      csmap_Load (items (Set now c k v d)) k = Some \<lparr>deadline = now + d, val = v\<rparr>"
    using assms(2) by (simp add: Get_Set) (simp add: Set_def Load_Store)
  have chan: "done_ch (Set now c k v d) = done_ch c"
    by (simp add: Set_def)
  have past: "- (2 ^ 63) \<le> sint now + sint d \<longrightarrow> sint (now + d) \<le> sint now"
    using assms(1) by (simp add: sint_add_nonpos)
  from stored chan past show ?thesis
    by blast
qed

theorem Set_ttl_not_validated_witness:
  "sint (- 5 :: int64) \<le> 0 \<and> csmap_ok (items example_cache) \<and>
   Get (Set 1000 example_cache 7 (Some ''c'') (- 5)) 7 = (Some ''c'', True) \<and>
   csmap_Load (items (Set 1000 example_cache 7 (Some ''c'') (- 5))) 7 =
     Some \<lparr>deadline = 995, val = Some ''c''\<rparr> \<and>
   - (2 ^ 63) \<le> sint (1000 :: int64) + sint (- 5 :: int64) \<and>
   sint (1000 + (- 5) :: int64) \<le> sint (1000 :: int64)"
proof -
  have neg: "sint (- 5 :: int64) \<le> 0"
    by simp
  have ok: "csmap_ok (items example_cache)"
    by (simp add: example_cache_def Set_def csmap_ok_New)
  show ?thesis
    using neg ok Set_ttl_not_validated [OF neg ok, of 1000 7 "Some ''c''"]
    by simp
qed

end
